theory Spec2Isabelle
  imports Complex_Main "HOL-Library.Multiset"
begin

section \<open>Python values used by compare\_allele\_frequencies.py\<close>

text \<open>
  The script computes with Python floats.  A float is modelled as a finite real, one of
  the two infinities, or NaN.  Comparisons follow IEEE 754 as Python does: every ordered
  comparison with NaN is false.  Arithmetic on finite values is exact (binary rounding,
  overflow to infinity, the OverflowError of an int too large for a float and the sign of
  zero are not modelled); arithmetic on the special values follows IEEE 754.
\<close>

datatype pyfloat = Fin real | PInf | NInf | NaN

datatype py_error =
    ValueError | IndexError | ZeroDivisionError | OSError
  | MalformedRecordError \<comment> \<open>named by the specification; no path of the script raises it\<close>

fun is_nan :: "pyfloat \<Rightarrow> bool" where
  "is_nan NaN = True"
| "is_nan _ = False"


fun fl_lt :: "pyfloat \<Rightarrow> pyfloat \<Rightarrow> bool" where
  "fl_lt (Fin a) (Fin b) = (a < b)"
| "fl_lt (Fin a) PInf = True"
| "fl_lt NInf (Fin b) = True"
| "fl_lt NInf PInf = True"
| "fl_lt _ _ = False"

definition fl_eq :: "pyfloat \<Rightarrow> pyfloat \<Rightarrow> bool" where
  "fl_eq a b = (\<not> is_nan a \<and> a = b)"

definition fl_gt :: "pyfloat \<Rightarrow> pyfloat \<Rightarrow> bool" where
  "fl_gt a b = fl_lt b a"

definition fl_ge :: "pyfloat \<Rightarrow> pyfloat \<Rightarrow> bool" where
  "fl_ge a b = (fl_lt b a \<or> fl_eq a b)"

fun fl_neg :: "pyfloat \<Rightarrow> pyfloat" where
  "fl_neg (Fin a) = Fin (- a)"
| "fl_neg PInf = NInf"
| "fl_neg NInf = PInf"
| "fl_neg NaN = NaN"

fun fl_add :: "pyfloat \<Rightarrow> pyfloat \<Rightarrow> pyfloat" where
  "fl_add (Fin a) (Fin b) = Fin (a + b)"
| "fl_add NaN _ = NaN"
| "fl_add _ NaN = NaN"
| "fl_add PInf NInf = NaN"
| "fl_add NInf PInf = NaN"
| "fl_add PInf _ = PInf"
| "fl_add _ PInf = PInf"
| "fl_add NInf _ = NInf"
| "fl_add _ NInf = NInf"

definition fl_sub :: "pyfloat \<Rightarrow> pyfloat \<Rightarrow> pyfloat" where
  "fl_sub a b = fl_add a (fl_neg b)"

text \<open>\<open>x / n\<close> for a float \<open>x\<close> and an int \<open>n\<close>: ZeroDivisionError when \<open>n = 0\<close>.\<close>

fun fl_div_int :: "pyfloat \<Rightarrow> int \<Rightarrow> py_error + pyfloat" where
  "fl_div_int x n =
     (if n = 0 then Inl ZeroDivisionError
      else Inr (case x of
                  Fin a \<Rightarrow> Fin (a / of_int n)
                | PInf \<Rightarrow> (if 0 < n then PInf else NInf)
                | NInf \<Rightarrow> (if 0 < n then NInf else PInf)
                | NaN \<Rightarrow> NaN))"

text \<open>
  The builtin \<open>max\<close> keeps its first argument and replaces it only by a strictly
  greater one; on an empty sequence it raises ValueError.  \<open>min\<close> is symmetric.
\<close>

fun py_max :: "pyfloat list \<Rightarrow> py_error + pyfloat" where
  "py_max [] = Inl ValueError"
| "py_max (x # xs) = Inr (foldl (\<lambda>m y. if fl_gt y m then y else m) x xs)"


subsection \<open>Dictionaries\<close>

text \<open>
  A Python dict keeps insertion order, and several results of the script depend on it.
  A dict is modelled as an association list in insertion order; a list that represents a
  dict has pairwise distinct keys.
\<close>

definition is_dict :: "('k \<times> 'v) list \<Rightarrow> bool" where
  "is_dict d = distinct (map fst d)"

text \<open>\<open>d[k] = v\<close>: overwrite in place, or append a new key.\<close>

fun dict_set :: "'k \<Rightarrow> 'v \<Rightarrow> ('k \<times> 'v) list \<Rightarrow> ('k \<times> 'v) list" where
  "dict_set k v [] = [(k, v)]"
| "dict_set k v ((k', v') # d) =
     (if k' = k then (k', v) # d else (k', v') # dict_set k v d)"

text \<open>\<open>d.setdefault(k, []).append(v)\<close>\<close>

fun setdefault_append :: "'k \<Rightarrow> 'v \<Rightarrow> ('k \<times> 'v list) list \<Rightarrow> ('k \<times> 'v list) list" where
  "setdefault_append k v [] = [(k, [v])]"
| "setdefault_append k v ((k', vs) # d) =
     (if k' = k then (k', vs @ [v]) # d else (k', vs) # setdefault_append k v d)"

section \<open>The aggregated table\<close>

type_synonym locus = "string \<times> int"
type_synonym allele_freqs = "(string \<times> pyfloat) list"
type_synonym clade_record = "pyfloat \<times> allele_freqs"
type_synonym clade_data = "(string \<times> clade_record) list"
type_synonym table = "(locus \<times> clade_data) list"

text \<open>A table built by the script is a dict of dicts of dicts.\<close>

definition wf_table :: "table \<Rightarrow> bool" where
  "wf_table t =
     (is_dict t \<and>
      list_all (\<lambda>(l, cd). is_dict cd \<and> list_all (\<lambda>(c, (p, afs)). is_dict afs) cd) t)"

section \<open>identify\_fixed\_alleles\<close>

type_synonym fixed_map = "(locus \<times> (string \<times> allele_freqs) list) list"

fun fixed_clades ::
  "locus \<Rightarrow> pyfloat \<Rightarrow> pyfloat \<Rightarrow> clade_data \<Rightarrow> fixed_map \<Rightarrow> py_error + fixed_map" where
  "fixed_clades key miss err [] acc = Inr acc"
| "fixed_clades key miss err ((clade, (perc_genotyped, afs)) # rest) acc =
     (if fl_ge perc_genotyped miss then
        (case py_max (map snd afs) of
           Inl e \<Rightarrow> Inl e
         | Inr m \<Rightarrow>
             if fl_ge m (fl_sub (Fin 1) err)
             then fixed_clades key miss err rest (setdefault_append key (clade, afs) acc)
             else fixed_clades key miss err rest acc)
      else fixed_clades key miss err rest acc)"

fun fixed_loci :: "pyfloat \<Rightarrow> pyfloat \<Rightarrow> table \<Rightarrow> fixed_map \<Rightarrow> py_error + fixed_map" where
  "fixed_loci miss err [] acc = Inr acc"
| "fixed_loci miss err ((key, clade_data) # rest) acc =
     (case fixed_clades key miss err clade_data acc of
        Inl e \<Rightarrow> Inl e
      | Inr acc' \<Rightarrow> fixed_loci miss err rest acc')"

definition identify_fixed_alleles :: "table \<Rightarrow> pyfloat \<Rightarrow> pyfloat \<Rightarrow> py_error + fixed_map" where
  "identify_fixed_alleles all_alleles miss_tolerance error_tolerance =
     fixed_loci miss_tolerance error_tolerance all_alleles []"

section \<open>find\_unique\_fixed\_alleles\<close>

text \<open>
  \<open>max(allele_freqs, key=allele_freqs.get)\<close>: the first key is kept and replaced only by a
  key whose frequency is strictly greater; ValueError on an empty dict.
\<close>

fun max_key_from :: "string \<times> pyfloat \<Rightarrow> allele_freqs \<Rightarrow> string \<times> pyfloat" where
  "max_key_from best [] = best"
| "max_key_from best ((b, g) # rest) =
     (if fl_gt g (snd best) then max_key_from (b, g) rest else max_key_from best rest)"

fun py_max_key :: "allele_freqs \<Rightarrow> py_error + string" where
  "py_max_key [] = Inl ValueError"
| "py_max_key ((a, f) # rest) = Inr (fst (max_key_from (a, f) rest))"

fun fixed_alleles_per_clade ::
  "(string \<times> allele_freqs) list \<Rightarrow> (string \<times> string) list \<Rightarrow> py_error + (string \<times> string) list" where
  "fixed_alleles_per_clade [] acc = Inr acc"
| "fixed_alleles_per_clade ((clade, afs) # rest) acc =
     (case py_max_key afs of
        Inl e \<Rightarrow> Inl e
      | Inr fixed_allele \<Rightarrow> fixed_alleles_per_clade rest (dict_set clade fixed_allele acc))"

fun unique_loci :: "fixed_map \<Rightarrow> fixed_map \<Rightarrow> py_error + fixed_map" where
  "unique_loci [] acc = Inr acc"
| "unique_loci ((key, clade_data) # rest) acc =
     (case fixed_alleles_per_clade clade_data [] of
        Inl e \<Rightarrow> Inl e
      | Inr per_clade \<Rightarrow>
          if length clade_data = 1 then unique_loci rest (dict_set key clade_data acc)
          else if length (remdups (map snd per_clade)) = length per_clade
          then unique_loci rest (dict_set key clade_data acc)
          else unique_loci rest acc)"

definition find_unique_fixed_alleles :: "fixed_map \<Rightarrow> py_error + fixed_map" where
  "find_unique_fixed_alleles fixed_alleles = unique_loci fixed_alleles []"

section \<open>identify\_private\_alleles\<close>

record private_value =
  freq :: pyfloat
  perc_genotyped :: pyfloat

type_synonym private_map = "(locus \<times> (string \<times> (string \<times> private_value) list) list) list"

text \<open>The guard at the head of the loop body: the locus is passed over.\<close>

definition locus_skipped :: "clade_data \<Rightarrow> bool" where
  "locus_skipped clade_data =
     list_ex (\<lambda>(_, (perc, afs)). fl_eq perc (Fin 0) \<or> list_ex (\<lambda>(_, f). is_nan f) afs) clade_data"

definition above :: "pyfloat \<Rightarrow> allele_freqs \<Rightarrow> allele_freqs" where
  "above err afs = filter (\<lambda>(allele, f). fl_gt f err) afs"

text \<open>The alleles above the tolerance in the clades other than \<open>clade\<close>; only membership is used.\<close>

definition other_clades_alleles :: "pyfloat \<Rightarrow> string \<Rightarrow> clade_data \<Rightarrow> string list" where
  "other_clades_alleles err clade clade_data =
     concat (map (\<lambda>(other_clade, (_, other_afs)).
                    if other_clade \<noteq> clade then map fst (above err other_afs) else [])
                 clade_data)"

definition private_alleles_set ::
  "pyfloat \<Rightarrow> clade_data \<Rightarrow> string \<Rightarrow> clade_record \<Rightarrow> (string \<times> private_value) list" where
  "private_alleles_set err clade_data clade rec =
     map (\<lambda>(allele, f). (allele, \<lparr>freq = f, perc_genotyped = fst rec\<rparr>))
       (filter (\<lambda>(allele, f). allele \<notin> set (other_clades_alleles err clade clade_data))
          (above err (snd rec)))"

fun private_clades ::
  "pyfloat \<Rightarrow> clade_data \<Rightarrow> clade_data \<Rightarrow> (string \<times> (string \<times> private_value) list) list
   \<Rightarrow> (string \<times> (string \<times> private_value) list) list" where
  "private_clades err clade_data [] acc = acc"
| "private_clades err clade_data ((clade, rec) # rest) acc =
     (let ps = private_alleles_set err clade_data clade rec
      in if ps \<noteq> [] then private_clades err clade_data rest (dict_set clade ps acc)
         else private_clades err clade_data rest acc)"

fun private_loci :: "pyfloat \<Rightarrow> table \<Rightarrow> private_map \<Rightarrow> private_map" where
  "private_loci err [] acc = acc"
| "private_loci err ((key, clade_data) # rest) acc =
     (if locus_skipped clade_data then private_loci err rest acc
      else
        (let at_pos = private_clades err clade_data clade_data []
         in if at_pos \<noteq> [] then private_loci err rest (dict_set key at_pos acc)
            else private_loci err rest acc))"

definition identify_private_alleles :: "table \<Rightarrow> pyfloat \<Rightarrow> private_map" where
  "identify_private_alleles all_alleles error_tolerance = private_loci error_tolerance all_alleles []"

section \<open>find\_private\_sites\<close>

definition genotyped_clades :: "clade_data \<Rightarrow> (string \<times> pyfloat) list" where
  "genotyped_clades clade_data =
     map (\<lambda>(clade, (perc, _)). (clade, perc))
       (filter (\<lambda>(clade, (perc, _)). fl_gt perc (Fin 0)) clade_data)"

definition missing_clades :: "clade_data \<Rightarrow> string list" where
  "missing_clades clade_data =
     remdups (map fst (filter (\<lambda>(clade, (perc, _)). fl_eq perc (Fin 0)) clade_data))"

type_synonym private_sites = "(locus \<times> (string \<times> pyfloat)) list"
type_synonym missing_sites = "(locus \<times> (string \<times> pyfloat) list) list"

fun private_sites_loop ::
  "table \<Rightarrow> private_sites \<times> missing_sites \<Rightarrow> private_sites \<times> missing_sites" where
  "private_sites_loop [] acc = acc"
| "private_sites_loop ((key, clade_data) # rest) (ps, ums) =
     (let g = genotyped_clades clade_data;
          m = missing_clades clade_data;
          ps' = (if length g = 1 \<and> length m > 0 then dict_set key (hd g) ps else ps);
          ums' = (if length g > 1 \<and> length m = 1 then dict_set key g ums else ums)
      in private_sites_loop rest (ps', ums'))"

definition find_private_sites :: "table \<Rightarrow> private_sites \<times> missing_sites" where
  "find_private_sites all_alleles = private_sites_loop all_alleles ([], [])"

section \<open>compute\_divergence\_scores\<close>

text \<open>Floats under \<open>+\<close> form a commutative monoid in this model, with \<open>0\<close> the float 0.0.\<close>

instantiation pyfloat :: comm_monoid_add
begin

definition zero_pyfloat :: pyfloat where
  "zero_pyfloat = Fin 0"

definition plus_pyfloat :: "pyfloat \<Rightarrow> pyfloat \<Rightarrow> pyfloat" where
  "plus_pyfloat = fl_add"

instance
proof
  fix a b c :: pyfloat
  show "a + b + c = a + (b + c)"
    unfolding plus_pyfloat_def by (cases a; cases b; cases c) simp_all
  show "a + b = b + a"
    unfolding plus_pyfloat_def by (cases a; cases b) simp_all
  show "0 + a = a"
    unfolding plus_pyfloat_def zero_pyfloat_def by (cases a) simp_all
qed

end

type_synonym divergence_map = "(locus \<times> (pyfloat \<times> pyfloat)) list"







section \<open>write\_most\_divergent\_loci: the rows selected\<close>

text \<open>\<open>round(x, 6)\<close> rounds half to even; infinities and NaN are returned unchanged.\<close>

definition round_half_even :: "real \<Rightarrow> int" where
  "round_half_even y =
     (let f = \<lfloor>y\<rfloor>; d = y - of_int f
      in if d < 1 / 2 then f else if 1 / 2 < d then f + 1 else if even f then f else f + 1)"

fun py_round6 :: "pyfloat \<Rightarrow> pyfloat" where
  "py_round6 (Fin a) = Fin (of_int (round_half_even (a * 10 ^ 6)) / 10 ^ 6)"
| "py_round6 x = x"

text \<open>
  \<open>sorted(xs, key=key, reverse=True)\<close>.  The builtin compares keys with \<open><\<close> only and is
  stable; with \<open>reverse=True\<close> it reverses the list, sorts it ascending and stably, and
  reverses the result.  The stable ascending sort is written as an insertion sort.
\<close>

fun insort_lt :: "('a \<Rightarrow> pyfloat) \<Rightarrow> 'a \<Rightarrow> 'a list \<Rightarrow> 'a list" where
  "insort_lt key x [] = [x]"
| "insort_lt key x (y # ys) =
     (if fl_lt (key y) (key x) then y # insort_lt key x ys else x # y # ys)"

definition py_sorted :: "('a \<Rightarrow> pyfloat) \<Rightarrow> 'a list \<Rightarrow> 'a list" where
  "py_sorted key xs = foldr (insort_lt key) xs []"

definition py_sorted_reverse :: "('a \<Rightarrow> pyfloat) \<Rightarrow> 'a list \<Rightarrow> 'a list" where
  "py_sorted_reverse key xs = rev (py_sorted key (rev xs))"

text \<open>\<open>xs[:n]\<close>: a negative \<open>n\<close> counts from the end.\<close>

definition py_slice_to :: "int \<Rightarrow> 'a list \<Rightarrow> 'a list" where
  "py_slice_to n xs = (if 0 \<le> n then take (nat n) xs else take (length xs - nat (- n)) xs)"

definition score_key :: "locus \<times> (pyfloat \<times> pyfloat) \<Rightarrow> pyfloat" where
  "score_key x = py_round6 (fst (snd x))"

definition filtered_scores :: "divergence_map \<Rightarrow> divergence_map" where
  "filtered_scores divergence_scores = filter (\<lambda>(k, v). \<not> is_nan (fst v)) divergence_scores"

text \<open>\<open>sorted_loci\<close>, the rows the function writes, in the order it writes them.\<close>

definition most_divergent_loci :: "divergence_map \<Rightarrow> int \<Rightarrow> divergence_map" where
  "most_divergent_loci divergence_scores num_div_loci =
     py_slice_to num_div_loci (py_sorted_reverse score_key (filtered_scores divergence_scores))"

section \<open>process\_files\<close>

subsection \<open>Strings, lists and exceptions\<close>

definition bind_err :: "'e + 'a \<Rightarrow> ('a \<Rightarrow> 'e + 'b) \<Rightarrow> 'e + 'b" where
  "bind_err r f = (case r of Inl e \<Rightarrow> Inl e | Inr x \<Rightarrow> f x)"

definition or_raise :: "'e \<Rightarrow> 'a option \<Rightarrow> 'e + 'a" where
  "or_raise e r = (case r of None \<Rightarrow> Inl e | Some x \<Rightarrow> Inr x)"






text \<open>\<open>xs.index(x)\<close> raises ValueError when \<open>x\<close> is absent; \<open>xs[i]\<close> raises IndexError.\<close>

fun py_index :: "'a \<Rightarrow> 'a list \<Rightarrow> py_error + nat" where
  "py_index x [] = Inl ValueError"
| "py_index x (y # ys) =
     (if y = x then Inr 0 else bind_err (py_index x ys) (\<lambda>i. Inr (Suc i)))"

definition py_getitem :: "'a list \<Rightarrow> nat \<Rightarrow> py_error + 'a" where
  "py_getitem xs i = (if i < length xs then Inr (xs ! i) else Inl IndexError)"

text \<open>\<open>line[header.index(name)]\<close>\<close>

definition column :: "string list \<Rightarrow> string list \<Rightarrow> string \<Rightarrow> py_error + string" where
  "column header line name = bind_err (py_index name header) (py_getitem line)"


subsection \<open>The aggregation\<close>







section \<open>main, from the aggregation on\<close>


subsection \<open>Decimal literals\<close>






section \<open>Specification-level definitions\<close>

text \<open>
  What the classifiers are meant to return, written as list comprehensions over the table.
  The theorems below relate the loops above to these.
\<close>

subsection \<open>Fixed alleles\<close>

definition is_fixed :: "pyfloat \<Rightarrow> pyfloat \<Rightarrow> clade_record \<Rightarrow> bool" where
  "is_fixed miss err rec =
     (fl_ge (fst rec) miss \<and>
      (\<exists>m. py_max (map snd (snd rec)) = Inr m \<and> fl_ge m (fl_sub (Fin 1) err)))"

definition fixed_entries :: "pyfloat \<Rightarrow> pyfloat \<Rightarrow> clade_data \<Rightarrow> (string \<times> allele_freqs) list" where
  "fixed_entries miss err cd =
     map (\<lambda>(c, rec). (c, snd rec)) (filter (\<lambda>(c, rec). is_fixed miss err rec) cd)"

definition fixed_spec :: "pyfloat \<Rightarrow> pyfloat \<Rightarrow> table \<Rightarrow> fixed_map" where
  "fixed_spec miss err t =
     filter (\<lambda>(l, es). es \<noteq> []) (map (\<lambda>(l, cd). (l, fixed_entries miss err cd)) t)"

text \<open>
  \<open>max\<close> is reached only for a record that passes the test on the genotyped fraction; such
  a record needs a non-empty allele map for \<open>max\<close> to return.
\<close>

definition max_defined :: "pyfloat \<Rightarrow> table \<Rightarrow> bool" where
  "max_defined miss t =
     (\<forall>(l, cd) \<in> set t. \<forall>(c, rec) \<in> set cd. fl_ge (fst rec) miss \<longrightarrow> snd rec \<noteq> [])"

subsection \<open>Private alleles\<close>

definition private_at :: "pyfloat \<Rightarrow> clade_data \<Rightarrow> (string \<times> (string \<times> private_value) list) list" where
  "private_at err cd =
     filter (\<lambda>(c, ps). ps \<noteq> []) (map (\<lambda>(c, rec). (c, private_alleles_set err cd c rec)) cd)"

definition private_spec :: "pyfloat \<Rightarrow> table \<Rightarrow> private_map" where
  "private_spec err t =
     filter (\<lambda>(l, m). m \<noteq> [])
       (map (\<lambda>(l, cd). (l, private_at err cd)) (filter (\<lambda>(l, cd). \<not> locus_skipped cd) t))"

subsection \<open>Unique fixed alleles\<close>

text \<open>
  A fixed-allele map is what the fixed-allele classifier returns: a dict from loci to lists
  of entries with distinct clade names, each with a non-empty allele map.
\<close>

definition wf_fixed :: "fixed_map \<Rightarrow> bool" where
  "wf_fixed fm =
     (is_dict fm \<and> (\<forall>(l, es) \<in> set fm. is_dict es \<and> (\<forall>(c, afs) \<in> set es. afs \<noteq> [])))"

text \<open>One fixed clade, or fixed alleles that differ from clade to clade.\<close>

definition is_unique_locus :: "(string \<times> allele_freqs) list \<Rightarrow> bool" where
  "is_unique_locus es = (length es = 1 \<or> distinct (map (\<lambda>(c, afs). py_max_key afs) es))"

subsection \<open>Private and uniquely-missing sites\<close>

definition is_private_site :: "clade_data \<Rightarrow> bool" where
  "is_private_site cd = (length (genotyped_clades cd) = 1 \<and> length (missing_clades cd) > 0)"

definition is_uniquely_missing :: "clade_data \<Rightarrow> bool" where
  "is_uniquely_missing cd = (length (genotyped_clades cd) > 1 \<and> length (missing_clades cd) = 1)"

definition private_sites_spec :: "table \<Rightarrow> private_sites" where
  "private_sites_spec t =
     map (\<lambda>(l, cd). (l, hd (genotyped_clades cd))) (filter (\<lambda>(l, cd). is_private_site cd) t)"

definition missing_sites_spec :: "table \<Rightarrow> missing_sites" where
  "missing_sites_spec t =
     map (\<lambda>(l, cd). (l, genotyped_clades cd)) (filter (\<lambda>(l, cd). is_uniquely_missing cd) t)"

text \<open>The clades genotyped at a locus, and the clades missing at it.\<close>

definition genotyped_set :: "clade_data \<Rightarrow> string set" where
  "genotyped_set cd = {c. \<exists>p afs. (c, (p, afs)) \<in> set cd \<and> fl_gt p (Fin 0)}"

definition missing_set :: "clade_data \<Rightarrow> string set" where
  "missing_set cd = {c. \<exists>p afs. (c, (p, afs)) \<in> set cd \<and> fl_eq p (Fin 0)}"

subsection \<open>Divergence scores\<close>









subsection \<open>Output files\<close>



subsection \<open>Example tables\<close>

text \<open>
  One locus, two clades fixed for different alleles, both fully genotyped: the example of
  the specification.
\<close>

definition table_AB :: table where
  "table_AB =
     [((''1'', 100),
       [(''A'', (Fin 1, [(''A'', Fin 1), (''T'', Fin 0)])),
        (''B'', (Fin 1, [(''A'', Fin 0), (''T'', Fin 1)]))])]"


text \<open>
  A fixed-allele map with three loci: two clades fixed for different alleles, two clades
  fixed for the same allele, and a single fixed clade.
\<close>

definition fixed_example :: fixed_map where
  "fixed_example =
     [((''1'', 100),
       [(''A'', [(''A'', Fin 1), (''T'', Fin 0)]), (''B'', [(''A'', Fin 0), (''T'', Fin 1)])]),
      ((''1'', 200),
       [(''A'', [(''G'', Fin 1), (''C'', Fin 0)]), (''B'', [(''C'', Fin 0), (''G'', Fin 1)])]),
      ((''2'', 7), [(''B'', [(''C'', Fin 1)])])]"

text \<open>
  Clade B is missing at the first locus while A and C are genotyped; at the second locus
  only A is genotyped.
\<close>

definition table_sites :: table where
  "table_sites =
     [((''1'', 10),
       [(''A'', (Fin 1, [(''G'', Fin 1)])),
        (''B'', (Fin 0, [(''G'', NaN)])),
        (''C'', (Fin (1 / 2), [(''G'', Fin 1)]))]),
      ((''1'', 20),
       [(''A'', (Fin 1, [(''T'', Fin 1)])),
        (''B'', (Fin 0, [(''T'', NaN)]))])]"



text \<open>
  A divergence map with a NaN score, two equal scores and two scores that are equal once
  rounded to six decimals.
\<close>

definition scores_example :: divergence_map where
  "scores_example =
     [((''1'', 1), (Fin (1 / 2), Fin 1)),
      ((''1'', 2), (NaN, Fin 0)),
      ((''1'', 3), (Fin 2, Fin 1)),
      ((''1'', 4), (Fin (5000001 / 10000000), Fin 1)),
      ((''1'', 5), (Fin 2, Fin (1 / 2)))]"

subsection \<open>Example files\<close>










section \<open>Running the model\<close>


section \<open>Properties of the fixed-allele classifier\<close>

lemma setdefault_append_fresh:
  "k \<notin> fst ` set d \<Longrightarrow> setdefault_append k v d = d @ [(k, [v])]"
  by (induction d) auto

lemma setdefault_append_last:
  "k \<notin> fst ` set d \<Longrightarrow> setdefault_append k v (d @ [(k, vs)]) = d @ [(k, vs @ [v])]"
  by (induction d) auto

lemma foldl_setdefault_append_last:
  "k \<notin> fst ` set d \<Longrightarrow>
   foldl (\<lambda>a e. setdefault_append k e a) (d @ [(k, vs)]) es = d @ [(k, vs @ es)]"
  by (induction es arbitrary: vs) (simp_all add: setdefault_append_last)

lemma foldl_setdefault_append:
  "k \<notin> fst ` set d \<Longrightarrow>
   foldl (\<lambda>a e. setdefault_append k e a) d es = (if es = [] then d else d @ [(k, es)])"
proof (cases es)
  case Nil
  then show ?thesis by simp
next
  case (Cons e es')
  assume "k \<notin> fst ` set d"
  then show ?thesis
    using Cons foldl_setdefault_append_last [of k d "[e]" es']
    by (simp add: setdefault_append_fresh)
qed

lemma fixed_clades_foldl:
  "\<forall>(c, rec) \<in> set cd. fl_ge (fst rec) miss \<longrightarrow> snd rec \<noteq> [] \<Longrightarrow>
   fixed_clades key miss err cd acc =
     Inr (foldl (\<lambda>a e. setdefault_append key e a) acc (fixed_entries miss err cd))"
proof (induction cd arbitrary: acc)
  case Nil
  then show ?case by (simp add: fixed_entries_def)
next
  case (Cons x cd)
  obtain c p afs where x: "x = (c, (p, afs))" by (cases x) auto
  have rest: "\<forall>(c, rec) \<in> set cd. fl_ge (fst rec) miss \<longrightarrow> snd rec \<noteq> []"
    using Cons.prems by simp
  note IH = Cons.IH [OF rest]
  show ?case
  proof (cases "fl_ge p miss")
    case False
    then show ?thesis using IH by (simp add: x fixed_entries_def is_fixed_def)
  next
    case True
    with Cons.prems x have "afs \<noteq> []" by simp
    then obtain a afs' where afs: "afs = a # afs'" by (cases afs) auto
    show ?thesis using True IH by (simp add: x afs fixed_entries_def is_fixed_def)
  qed
qed

lemma fixed_loci_spec:
  "distinct (map fst t) \<Longrightarrow> fst ` set acc \<inter> fst ` set t = {} \<Longrightarrow> max_defined miss t \<Longrightarrow>
   fixed_loci miss err t acc = Inr (acc @ fixed_spec miss err t)"
proof (induction t arbitrary: acc)
  case Nil
  then show ?case by (simp add: fixed_spec_def)
next
  case (Cons x t)
  obtain l cd where x: "x = (l, cd)" by (cases x) auto
  let ?es = "fixed_entries miss err cd"
  let ?acc = "if ?es = [] then acc else acc @ [(l, ?es)]"
  have fresh: "l \<notin> fst ` set acc" using Cons.prems(2) x by auto
  have cd: "\<forall>(c, rec) \<in> set cd. fl_ge (fst rec) miss \<longrightarrow> snd rec \<noteq> []"
    using Cons.prems(3) x by (auto simp: max_defined_def)
  have step: "fixed_clades l miss err cd acc = Inr ?acc"
    using fixed_clades_foldl [OF cd] foldl_setdefault_append [OF fresh] by simp
  have d: "distinct (map fst t)" using Cons.prems(1) by simp
  have disj: "fst ` set ?acc \<inter> fst ` set t = {}"
    using Cons.prems(1,2) x by auto
  have md: "max_defined miss t" using Cons.prems(3) by (simp add: max_defined_def)
  show ?case
    using Cons.IH [OF d disj md] step by (simp add: x fixed_spec_def)
qed

lemma fixed_spec_dict: "is_dict t \<Longrightarrow> is_dict (fixed_spec miss err t)"
  unfolding is_dict_def fixed_spec_def
  by (induction t) (auto simp: image_iff)

lemma in_fixed_spec:
  "(l, es) \<in> set (fixed_spec miss err t) \<longleftrightarrow>
     es \<noteq> [] \<and> (\<exists>cd. (l, cd) \<in> set t \<and> es = fixed_entries miss err cd)"
  unfolding fixed_spec_def by auto

lemma in_fixed_entries:
  "(c, afs) \<in> set (fixed_entries miss err cd) \<longleftrightarrow>
     (\<exists>p. (c, (p, afs)) \<in> set cd \<and> is_fixed miss err (p, afs))"
  unfolding fixed_entries_def by (auto simp: image_iff)




section \<open>Properties of the private-allele classifier\<close>

lemma dict_set_fresh: "k \<notin> fst ` set d \<Longrightarrow> dict_set k v d = d @ [(k, v)]"
  by (induction d) auto

lemma private_clades_spec:
  "distinct (map fst cd) \<Longrightarrow> fst ` set acc \<inter> fst ` set cd = {} \<Longrightarrow>
   private_clades err cd0 cd acc =
     acc @ filter (\<lambda>(c, ps). ps \<noteq> []) (map (\<lambda>(c, rec). (c, private_alleles_set err cd0 c rec)) cd)"
proof (induction cd arbitrary: acc)
  case Nil
  then show ?case by simp
next
  case (Cons x cd)
  obtain c rec where x: "x = (c, rec)" by (cases x) auto
  let ?ps = "private_alleles_set err cd0 c rec"
  have fresh: "c \<notin> fst ` set acc" using Cons.prems(2) x by auto
  have d: "distinct (map fst cd)" using Cons.prems(1) by simp
  show ?case
  proof (cases "?ps = []")
    case True
    have "fst ` set acc \<inter> fst ` set cd = {}" using Cons.prems x by auto
    from Cons.IH [OF d this] True show ?thesis by (simp add: x)
  next
    case False
    have "fst ` set (acc @ [(c, ?ps)]) \<inter> fst ` set cd = {}" using Cons.prems x by auto
    from Cons.IH [OF d this] False show ?thesis
      by (simp add: x dict_set_fresh [OF fresh])
  qed
qed

lemma private_loci_spec:
  "distinct (map fst t) \<Longrightarrow> fst ` set acc \<inter> fst ` set t = {} \<Longrightarrow>
   \<forall>(l, cd) \<in> set t. distinct (map fst cd) \<Longrightarrow>
   private_loci err t acc = acc @ private_spec err t"
proof (induction t arbitrary: acc)
  case Nil
  then show ?case by (simp add: private_spec_def)
next
  case (Cons x t)
  obtain l cd where x: "x = (l, cd)" by (cases x) auto
  have dcd: "distinct (map fst cd)" using Cons.prems(3) x by simp
  have at: "private_clades err cd cd [] = private_at err cd"
    using private_clades_spec [OF dcd, of "[]" err cd] by (simp add: private_at_def)
  have fresh: "l \<notin> fst ` set acc" using Cons.prems(2) x by auto
  have d: "distinct (map fst t)" using Cons.prems(1) by simp
  have rest: "\<forall>(l, cd) \<in> set t. distinct (map fst cd)" using Cons.prems(3) by simp
  show ?case
  proof (cases "\<not> locus_skipped cd \<and> private_at err cd \<noteq> []")
    case True
    have "fst ` set (acc @ [(l, private_at err cd)]) \<inter> fst ` set t = {}"
      using Cons.prems x by auto
    from Cons.IH [OF d this rest] True show ?thesis
      by (simp add: x at private_spec_def dict_set_fresh [OF fresh])
  next
    case False
    have "fst ` set acc \<inter> fst ` set t = {}" using Cons.prems x by auto
    from Cons.IH [OF d this rest] False show ?thesis
      by (auto simp: x at private_spec_def)
  qed
qed

lemma wf_table_loci: "wf_table t \<Longrightarrow> distinct (map fst t)"
  by (simp add: wf_table_def is_dict_def)

lemma wf_table_clades: "wf_table t \<Longrightarrow> (l, cd) \<in> set t \<Longrightarrow> distinct (map fst cd)"
  by (auto simp: wf_table_def is_dict_def list_all_iff)

lemma wf_table_alleles:
  "wf_table t \<Longrightarrow> (l, cd) \<in> set t \<Longrightarrow> (c, (p, afs)) \<in> set cd \<Longrightarrow> distinct (map fst afs)"
  by (fastforce simp: wf_table_def is_dict_def list_all_iff)

lemma identify_private_alleles_spec:
  "wf_table t \<Longrightarrow> identify_private_alleles t err = private_spec err t"
proof -
  assume wf: "wf_table t"
  have "\<forall>(l, cd) \<in> set t. distinct (map fst cd)"
    using wf_table_clades [OF wf] by auto
  then show ?thesis
    using private_loci_spec [of t "[]" err] wf_table_loci [OF wf]
    by (simp add: identify_private_alleles_def)
qed

lemma locus_skipped_iff:
  "locus_skipped cd \<longleftrightarrow>
     (\<exists>(c, (p, afs)) \<in> set cd. fl_eq p (Fin 0) \<or> (\<exists>(a, f) \<in> set afs. is_nan f))"
  unfolding locus_skipped_def list_ex_iff by (rule bex_cong) auto

lemma in_private_spec:
  "(l, m) \<in> set (private_spec err t) \<longleftrightarrow>
     m \<noteq> [] \<and> (\<exists>cd. (l, cd) \<in> set t \<and> \<not> locus_skipped cd \<and> m = private_at err cd)"
  unfolding private_spec_def by auto

lemma in_private_at:
  "(c, ps) \<in> set (private_at err cd) \<longleftrightarrow>
     ps \<noteq> [] \<and> (\<exists>rec. (c, rec) \<in> set cd \<and> ps = private_alleles_set err cd c rec)"
  unfolding private_at_def by auto

lemma in_other_clades_alleles:
  "a \<in> set (other_clades_alleles err c cd) \<longleftrightarrow>
     (\<exists>c' p' afs' f'. (c', (p', afs')) \<in> set cd \<and> c' \<noteq> c \<and> (a, f') \<in> set afs' \<and> fl_gt f' err)"
proof
  assume "a \<in> set (other_clades_alleles err c cd)"
  then show "\<exists>c' p' afs' f'. (c', (p', afs')) \<in> set cd \<and> c' \<noteq> c \<and> (a, f') \<in> set afs' \<and> fl_gt f' err"
    unfolding other_clades_alleles_def above_def by (auto split: if_splits) blast
next
  assume "\<exists>c' p' afs' f'. (c', (p', afs')) \<in> set cd \<and> c' \<noteq> c \<and> (a, f') \<in> set afs' \<and> fl_gt f' err"
  then obtain c' p' afs' f' where h: "(c', (p', afs')) \<in> set cd" "c' \<noteq> c" "(a, f') \<in> set afs'" "fl_gt f' err"
    by blast
  from h(3,4) have "a \<in> set (map fst (above err afs'))"
    unfolding above_def by force
  with h(1,2) show "a \<in> set (other_clades_alleles err c cd)"
    unfolding other_clades_alleles_def by force
qed

lemma in_private_alleles_set:
  "(a, v) \<in> set (private_alleles_set err cd c (p, afs)) \<longleftrightarrow>
     (\<exists>f. (a, f) \<in> set afs \<and> fl_gt f err \<and> a \<notin> set (other_clades_alleles err c cd) \<and>
          v = \<lparr>freq = f, perc_genotyped = p\<rparr>)"
  unfolding private_alleles_set_def above_def by auto

lemma private_spec_keys:
  "distinct (map fst t) \<Longrightarrow> distinct (map fst (private_spec err t))"
  unfolding private_spec_def by (induction t) (auto simp: image_iff)

lemma dict_unique: "distinct (map fst d) \<Longrightarrow> (k, v) \<in> set d \<Longrightarrow> (k, v') \<in> set d \<Longrightarrow> v = v'"
  by (metis eq_key_imp_eq_value)

text \<open>
  C2.  On every aggregated table the private-allele classifier passes over a locus, so
  that the locus is no key of the output, whenever a clade at the locus has a genotyped
  fraction equal to 0 or a NaN allele frequency.  At the other loci, an allele is reported
  for a clade exactly when its frequency in the clade is strictly above \<open>error_tolerance\<close>
  and no other clade at the locus has the allele with a frequency strictly above
  \<open>error_tolerance\<close>; the value reported is the allele's frequency with the clade's
  genotyped fraction.
\<close>

theorem identify_private_alleles_entries:
  assumes wf: "wf_table t"
  shows "(\<forall>l cd. (l, cd) \<in> set t \<and>
              (\<exists>(c, (p, afs)) \<in> set cd. fl_eq p (Fin 0) \<or> (\<exists>(a, f) \<in> set afs. is_nan f))
            \<longrightarrow> l \<notin> fst ` set (identify_private_alleles t err)) \<and>
         (\<forall>l c a v.
            (\<exists>m ps. (l, m) \<in> set (identify_private_alleles t err) \<and> (c, ps) \<in> set m \<and>
                     (a, v) \<in> set ps) \<longleftrightarrow>
            (\<exists>cd p afs f.
                (l, cd) \<in> set t \<and>
                \<not> (\<exists>(c, (p, afs)) \<in> set cd. fl_eq p (Fin 0) \<or> (\<exists>(a, f) \<in> set afs. is_nan f)) \<and>
                (c, (p, afs)) \<in> set cd \<and> (a, f) \<in> set afs \<and> fl_gt f err \<and>
                \<not> (\<exists>c' p' afs' f'. (c', (p', afs')) \<in> set cd \<and> c' \<noteq> c \<and>
                        (a, f') \<in> set afs' \<and> fl_gt f' err) \<and>
                v = \<lparr>freq = f, perc_genotyped = p\<rparr>)) \<and>
         is_dict (identify_private_alleles t err)"
proof -
  let ?out = "identify_private_alleles t err"
  have out: "?out = private_spec err t" by (rule identify_private_alleles_spec [OF wf])
  have dt: "distinct (map fst t)" by (rule wf_table_loci [OF wf])
  have skip: "l \<notin> fst ` set ?out"
    if "(l, cd) \<in> set t" and sk: "locus_skipped cd" for l cd
  proof
    assume "l \<in> fst ` set ?out"
    then obtain m where "(l, m) \<in> set (private_spec err t)" using out by auto
    then obtain cd' where "(l, cd') \<in> set t" "\<not> locus_skipped cd'"
      by (auto simp: in_private_spec)
    with dict_unique [OF dt that(1)] sk show False by blast
  qed
  have iff: "(\<exists>m ps. (l, m) \<in> set ?out \<and> (c, ps) \<in> set m \<and> (a, v) \<in> set ps) \<longleftrightarrow>
            (\<exists>cd p afs f.
                (l, cd) \<in> set t \<and> \<not> locus_skipped cd \<and>
                (c, (p, afs)) \<in> set cd \<and> (a, f) \<in> set afs \<and> fl_gt f err \<and>
                a \<notin> set (other_clades_alleles err c cd) \<and>
                v = \<lparr>freq = f, perc_genotyped = p\<rparr>)" (is "?L \<longleftrightarrow> ?R") for l c a v
  proof
    assume ?L
    then obtain m ps where m: "(l, m) \<in> set (private_spec err t)" "(c, ps) \<in> set m" "(a, v) \<in> set ps"
      using out by auto
    from m(1) obtain cd where cd: "(l, cd) \<in> set t" "\<not> locus_skipped cd" "m = private_at err cd"
      by (auto simp: in_private_spec)
    from m(2) cd(3) obtain p afs where r: "(c, (p, afs)) \<in> set cd"
        "ps = private_alleles_set err cd c (p, afs)"
      by (auto simp: in_private_at)
    from m(3) r(2) obtain f where "(a, f) \<in> set afs" "fl_gt f err"
        "a \<notin> set (other_clades_alleles err c cd)" "v = \<lparr>freq = f, perc_genotyped = p\<rparr>"
      by (auto simp: in_private_alleles_set)
    with cd r show ?R by blast
  next
    assume ?R
    then obtain cd p afs f where h: "(l, cd) \<in> set t" "\<not> locus_skipped cd"
        "(c, (p, afs)) \<in> set cd" "(a, f) \<in> set afs" "fl_gt f err"
        "a \<notin> set (other_clades_alleles err c cd)" "v = \<lparr>freq = f, perc_genotyped = p\<rparr>"
      by blast
    let ?ps = "private_alleles_set err cd c (p, afs)"
    have av: "(a, v) \<in> set ?ps" using h by (auto simp: in_private_alleles_set)
    then have "?ps \<noteq> []" by auto
    with h(3) have cps: "(c, ?ps) \<in> set (private_at err cd)" by (auto simp: in_private_at)
    then have "private_at err cd \<noteq> []" by auto
    with h(1,2) have "(l, private_at err cd) \<in> set (private_spec err t)"
      by (auto simp: in_private_spec)
    with cps av show ?L using out by auto
  qed
  have dict: "is_dict ?out"
    using private_spec_keys [OF dt] out by (simp add: is_dict_def)
  show ?thesis
    using skip iff dict
    unfolding locus_skipped_iff in_other_clades_alleles by blast
qed

theorem identify_private_alleles_entries_witness:
  "wf_table table_AB \<and>
   (\<exists>m ps. (((''1'', 100), m) \<in> set (identify_private_alleles table_AB (Fin 0)) \<and>
       (''A'', ps) \<in> set m \<and> (''A'', \<lparr>freq = Fin 1, perc_genotyped = Fin 1\<rparr>) \<in> set ps)) \<and>
   wf_table table_sites \<and>
   (''1'', 10) \<notin> fst ` set (identify_private_alleles table_sites (Fin 0))"
proof -
  have wfs: "wf_table table_sites"
    by (simp add: wf_table_def is_dict_def table_sites_def)
  have "((''1'', 10), snd (hd table_sites)) \<in> set table_sites \<and>
      (\<exists>(c, (p, afs)) \<in> set (snd (hd table_sites)).
         fl_eq p (Fin 0) \<or> (\<exists>(a, f) \<in> set afs. is_nan f))"
    by (simp add: table_sites_def fl_eq_def)
  with identify_private_alleles_entries [OF wfs, of "Fin 0", THEN conjunct1]
  have skipped: "(''1'', 10) \<notin> fst ` set (identify_private_alleles table_sites (Fin 0))"
    by blast
  have wf: "wf_table table_AB"
    by (simp add: wf_table_def is_dict_def table_AB_def)
  have "\<exists>cd p afs f.
          ((''1'', 100), cd) \<in> set table_AB \<and>
          \<not> (\<exists>(c, (p, afs)) \<in> set cd. fl_eq p (Fin 0) \<or> (\<exists>(a, f) \<in> set afs. is_nan f)) \<and>
          (''A'', (p, afs)) \<in> set cd \<and> (''A'', f) \<in> set afs \<and> fl_gt f (Fin 0) \<and>
          \<not> (\<exists>c' p' afs' f'. (c', (p', afs')) \<in> set cd \<and> c' \<noteq> ''A'' \<and>
                  (''A'', f') \<in> set afs' \<and> fl_gt f' (Fin 0)) \<and>
          \<lparr>freq = Fin 1, perc_genotyped = Fin 1\<rparr> = \<lparr>freq = f, perc_genotyped = p\<rparr>"
    apply (rule exI [of _ "[(''A'', (Fin 1, [(''A'', Fin 1), (''T'', Fin 0)])),
        (''B'', (Fin 1, [(''A'', Fin 0), (''T'', Fin 1)]))]"])
    apply (rule exI [of _ "Fin 1"])
    apply (rule exI [of _ "[(''A'', Fin 1), (''T'', Fin 0)]"])
    apply (rule exI [of _ "Fin 1"])
    apply (auto simp add: table_AB_def fl_eq_def fl_gt_def)
    done
  with identify_private_alleles_entries [OF wf, of "Fin 0"] wf wfs skipped show ?thesis
    by blast
qed

section \<open>Properties of the unique-fixed classifier\<close>

lemma fl_not_gt_lt_not_ge: "\<not> fl_gt m b \<Longrightarrow> fl_lt b g \<Longrightarrow> \<not> fl_ge m g"
  unfolding fl_gt_def fl_ge_def fl_eq_def by (cases m; cases b; cases g) auto

lemma fl_not_ge_lt_not_ge: "\<not> fl_ge y b \<Longrightarrow> fl_lt b g \<Longrightarrow> \<not> fl_ge y g"
  unfolding fl_ge_def fl_eq_def by (cases y; cases b; cases g) auto

lemma fl_ge_imp_not_lt: "\<not> fl_gt m b \<Longrightarrow> fl_lt b g \<Longrightarrow> \<not> fl_gt m g"
  unfolding fl_gt_def by (cases m; cases b; cases g) auto

lemma max_key_from_split:
  "\<forall>(b, g) \<in> set ys. \<not> fl_ge g (snd best) \<Longrightarrow>
   \<forall>(b, g) \<in> set mid. \<not> fl_gt g (snd best) \<Longrightarrow>
   \<exists>ys' zs. ys @ best # mid @ rest = ys' @ max_key_from best rest # zs \<and>
     (\<forall>(b, g) \<in> set ys'. \<not> fl_ge g (snd (max_key_from best rest))) \<and>
     (\<forall>(b, g) \<in> set zs. \<not> fl_gt g (snd (max_key_from best rest)))"
proof (induction rest arbitrary: ys best mid)
  case Nil
  then show ?case by auto
next
  case (Cons x rest)
  obtain b g where x: "x = (b, g)" by (cases x) auto
  show ?case
  proof (cases "fl_gt g (snd best)")
    case True
    then have lt: "fl_lt (snd best) g" by (simp add: fl_gt_def)
    have 1: "\<forall>(b', g') \<in> set (ys @ best # mid). \<not> fl_ge g' (snd (b, g))"
    proof -
      have "\<not> fl_ge g' g" if "(b', g') \<in> set ys" for b' g'
        using Cons.prems(1) that fl_not_ge_lt_not_ge [OF _ lt] by auto
      moreover have "\<not> fl_ge g' g" if "(b', g') \<in> set mid" for b' g'
        using Cons.prems(2) that fl_not_gt_lt_not_ge [OF _ lt] by auto
      moreover have "\<not> fl_ge (snd best) g"
        using lt unfolding fl_ge_def fl_eq_def by (cases "snd best"; cases g) auto
      ultimately show ?thesis by (cases best) auto
    qed
    have 2: "\<forall>(b', g') \<in> set []. \<not> fl_gt g' (snd (b, g))" by simp
    from Cons.IH [OF 1 2] True show ?thesis by (simp add: x)
  next
    case False
    have 2: "\<forall>(b', g') \<in> set (mid @ [(b, g)]). \<not> fl_gt g' (snd best)"
      using Cons.prems(2) False by auto
    from Cons.IH [OF Cons.prems(1) 2] False show ?thesis by (simp add: x)
  qed
qed

lemma py_max_key_split:
  assumes "afs \<noteq> []"
  shows "\<exists>a f ys zs. py_max_key afs = Inr a \<and> afs = ys @ (a, f) # zs \<and>
           (\<forall>(b, g) \<in> set ys. \<not> fl_ge g f) \<and> (\<forall>(b, g) \<in> set zs. \<not> fl_gt g f)"
proof -
  obtain x rest where afs: "afs = x # rest" using assms by (cases afs) auto
  obtain a0 f0 where x: "x = (a0, f0)" by (cases x) auto
  from max_key_from_split [of "[]" x "[]" rest]
  obtain ys zs where s: "x # rest = ys @ max_key_from x rest # zs"
    "\<forall>(b, g) \<in> set ys. \<not> fl_ge g (snd (max_key_from x rest))"
    "\<forall>(b, g) \<in> set zs. \<not> fl_gt g (snd (max_key_from x rest))"
    by auto
  obtain a f where r: "max_key_from x rest = (a, f)" by (cases "max_key_from x rest") auto
  have "py_max_key afs = Inr a" by (simp add: afs x r [unfolded x])
  with s r afs show ?thesis by auto
qed

lemma py_max_key_Inr: "afs \<noteq> [] \<Longrightarrow> py_max_key afs = Inr (projr (py_max_key afs))"
  by (cases afs) auto

lemma fixed_alleles_per_clade_map:
  "\<forall>(c, afs) \<in> set es. afs \<noteq> [] \<Longrightarrow> distinct (map fst es) \<Longrightarrow>
   fst ` set acc \<inter> fst ` set es = {} \<Longrightarrow>
   fixed_alleles_per_clade es acc =
     Inr (acc @ map (\<lambda>(c, afs). (c, projr (py_max_key afs))) es)"
proof (induction es arbitrary: acc)
  case Nil
  then show ?case by simp
next
  case (Cons x es)
  obtain c afs where x: "x = (c, afs)" by (cases x) auto
  have ne: "afs \<noteq> []" using Cons.prems(1) x by simp
  have fresh: "c \<notin> fst ` set acc" using Cons.prems(3) x by auto
  have 1: "\<forall>(c, afs) \<in> set es. afs \<noteq> []" using Cons.prems(1) by simp
  have 2: "distinct (map fst es)" using Cons.prems(2) by simp
  have 3: "fst ` set (acc @ [(c, projr (py_max_key afs))]) \<inter> fst ` set es = {}"
    using Cons.prems(2,3) x by auto
  obtain a where a: "py_max_key afs = Inr a" using py_max_key_Inr [OF ne] by blast
  from Cons.IH [OF 1 2 3] show ?case
    by (simp add: x a dict_set_fresh [OF fresh])
qed

lemma distinct_fixed_alleles:
  assumes "\<forall>(c, afs) \<in> set es. afs \<noteq> []"
  shows "distinct (map (\<lambda>(c, afs). projr (py_max_key afs)) es) \<longleftrightarrow>
         distinct (map (\<lambda>(c, afs). py_max_key afs) es)"
proof -
  have "map (\<lambda>(c, afs). py_max_key afs) es =
        map Inr (map (\<lambda>(c, afs). projr (py_max_key afs)) es)"
    using assms py_max_key_Inr by (auto simp: case_prod_unfold)
  moreover have "distinct (map (Inr :: string \<Rightarrow> py_error + string) xs) \<longleftrightarrow> distinct xs" for xs
    by (simp add: distinct_map inj_on_def)
  ultimately show ?thesis by (simp only:)
qed

lemma unique_test:
  assumes "\<forall>(c, afs) \<in> set es. afs \<noteq> []" and "distinct (map fst es)"
  shows "\<exists>per_clade. fixed_alleles_per_clade es [] = Inr per_clade \<and>
           (length es = 1 \<or> length (remdups (map snd per_clade)) = length per_clade
              \<longleftrightarrow> is_unique_locus es)"
proof -
  let ?pc = "map (\<lambda>(c, afs). (c, projr (py_max_key afs))) es"
  have pc: "fixed_alleles_per_clade es [] = Inr ?pc"
    using fixed_alleles_per_clade_map [OF assms, of "[]"] by simp
  have "map snd ?pc = map (\<lambda>(c, afs). projr (py_max_key afs)) es"
    by (simp add: case_prod_unfold comp_def)
  then have "length (remdups (map snd ?pc)) = length ?pc \<longleftrightarrow>
        distinct (map (\<lambda>(c, afs). projr (py_max_key afs)) es)"
    by (metis (lifting) length_map length_remdups_eq remdups_id_iff_distinct)
  with pc distinct_fixed_alleles [OF assms(1)] show ?thesis
    by (simp add: is_unique_locus_def)
qed

lemma unique_loci_filter:
  "distinct (map fst fm) \<Longrightarrow> fst ` set acc \<inter> fst ` set fm = {} \<Longrightarrow>
   \<forall>(l, es) \<in> set fm. distinct (map fst es) \<and> (\<forall>(c, afs) \<in> set es. afs \<noteq> []) \<Longrightarrow>
   unique_loci fm acc = Inr (acc @ filter (\<lambda>(l, es). is_unique_locus es) fm)"
proof (induction fm arbitrary: acc)
  case Nil
  then show ?case by simp
next
  case (Cons x fm)
  obtain l es where x: "x = (l, es)" by (cases x) auto
  have es: "\<forall>(c, afs) \<in> set es. afs \<noteq> []" "distinct (map fst es)"
    using Cons.prems(3) x by auto
  from unique_test [OF es] obtain per_clade where
    pc: "fixed_alleles_per_clade es [] = Inr per_clade"
    and test: "length es = 1 \<or> length (remdups (map snd per_clade)) = length per_clade
              \<longleftrightarrow> is_unique_locus es"
    by blast
  have fresh: "l \<notin> fst ` set acc" using Cons.prems(2) x by auto
  have d: "distinct (map fst fm)" using Cons.prems(1) by simp
  have rest: "\<forall>(l, es) \<in> set fm. distinct (map fst es) \<and> (\<forall>(c, afs) \<in> set es. afs \<noteq> [])"
    using Cons.prems(3) by simp
  show ?case
  proof (cases "is_unique_locus es")
    case True
    have "fst ` set (acc @ [(l, es)]) \<inter> fst ` set fm = {}" using Cons.prems(1,2) x by auto
    from Cons.IH [OF d this rest] True test pc show ?thesis
      by (auto simp: x dict_set_fresh [OF fresh])
  next
    case False
    have "fst ` set acc \<inter> fst ` set fm = {}" using Cons.prems(2) by auto
    from Cons.IH [OF d this rest] False test pc show ?thesis
      by (auto simp: x)
  qed
qed

lemma fixed_clades_Inr_defined:
  "fixed_clades key miss err cd acc = Inr out \<Longrightarrow>
   \<forall>(c, rec) \<in> set cd. fl_ge (fst rec) miss \<longrightarrow> snd rec \<noteq> []"
proof (induction cd arbitrary: acc)
  case Nil
  then show ?case by simp
next
  case (Cons x cd)
  obtain c p afs where x: "x = (c, (p, afs))" by (cases x) auto
  from Cons.prems show ?case
    using Cons.IH [of acc] Cons.IH [of "setdefault_append key (c, afs) acc"]
    by (auto simp: x split: if_splits sum.splits)
qed

lemma fixed_loci_Inr_defined:
  "fixed_loci miss err t acc = Inr out \<Longrightarrow> max_defined miss t"
proof (induction t arbitrary: acc)
  case Nil
  then show ?case by (simp add: max_defined_def)
next
  case (Cons x t)
  obtain l cd where x: "x = (l, cd)" by (cases x) auto
  from Cons.prems obtain acc' where
    a: "fixed_clades l miss err cd acc = Inr acc'" and b: "fixed_loci miss err t acc' = Inr out"
    by (auto simp: x split: sum.splits)
  from Cons.IH [OF b] fixed_clades_Inr_defined [OF a] show ?case
    by (simp add: x max_defined_def)
qed

lemma wf_fixed_fixed_spec:
  assumes "wf_table t"
  shows "wf_fixed (fixed_spec miss err t)"
proof -
  have d: "is_dict (fixed_spec miss err t)"
    using fixed_spec_dict assms by (simp add: wf_table_def)
  have "is_dict es \<and> (\<forall>(c, afs) \<in> set es. afs \<noteq> [])"
    if "(l, es) \<in> set (fixed_spec miss err t)" for l es
  proof -
    from that obtain cd where cd: "(l, cd) \<in> set t" "es = fixed_entries miss err cd"
      by (auto simp: in_fixed_spec)
    have "distinct (map fst cd)" using wf_table_clades [OF assms cd(1)] .
    then have "distinct (map fst es)"
      unfolding cd(2) fixed_entries_def
      by (simp add: comp_def case_prod_unfold distinct_map_filter)
    moreover have "afs \<noteq> []" if "(c, afs) \<in> set es" for c afs
      using that unfolding cd(2) in_fixed_entries is_fixed_def by auto
    ultimately show ?thesis by (auto simp: is_dict_def)
  qed
  then have "\<forall>(l, es) \<in> set (fixed_spec miss err t).
      is_dict es \<and> (\<forall>(c, afs) \<in> set es. afs \<noteq> [])"
    by blast
  with d show ?thesis by (simp add: wf_fixed_def)
qed

lemma identify_fixed_alleles_wf_fixed:
  assumes "wf_table t" and "identify_fixed_alleles t miss err = Inr out"
  shows "wf_fixed out"
proof -
  have m: "max_defined miss t"
    using fixed_loci_Inr_defined assms(2) by (simp add: identify_fixed_alleles_def)
  have "is_dict t" using assms(1) by (simp add: wf_table_def)
  from fixed_loci_spec [of t "[]" miss err] this m assms(2)
  have "out = fixed_spec miss err t"
    by (simp add: identify_fixed_alleles_def is_dict_def)
  with wf_fixed_fixed_spec [OF assms(1)] show ?thesis by simp
qed

text \<open>
  C3.  On every fixed-allele map the unique-fixed classifier returns the loci that have
  exactly one fixed clade or whose clades' fixed alleles are pairwise distinct, each with
  all its entries unchanged and in the same order; the other loci are dropped whole.  The
  fixed allele of a clade is a key of its allele map whose frequency no other key exceeds,
  and no key inserted before it has a frequency greater than or equal to its own.
\<close>

theorem find_unique_fixed_alleles_filter:
  assumes "wf_fixed fm"
  shows "find_unique_fixed_alleles fm = Inr (filter (\<lambda>(l, es). is_unique_locus es) fm) \<and>
         (\<forall>(l, es) \<in> set fm. \<forall>(c, afs) \<in> set es.
            \<exists>a f ys zs. py_max_key afs = Inr a \<and> afs = ys @ (a, f) # zs \<and>
              (\<forall>(b, g) \<in> set ys. \<not> fl_ge g f) \<and> (\<forall>(b, g) \<in> set zs. \<not> fl_gt g f))"
proof -
  have "find_unique_fixed_alleles fm = Inr (filter (\<lambda>(l, es). is_unique_locus es) fm)"
    using unique_loci_filter [of fm "[]"] assms
    by (simp add: find_unique_fixed_alleles_def wf_fixed_def is_dict_def case_prod_unfold)
  moreover have "\<exists>a f ys zs. py_max_key afs = Inr a \<and> afs = ys @ (a, f) # zs \<and>
              (\<forall>(b, g) \<in> set ys. \<not> fl_ge g f) \<and> (\<forall>(b, g) \<in> set zs. \<not> fl_gt g f)"
    if "(l, es) \<in> set fm" "(c, afs) \<in> set es" for l es c afs
  proof -
    have "afs \<noteq> []" using assms that by (auto simp: wf_fixed_def)
    then show ?thesis by (rule py_max_key_split)
  qed
  ultimately show ?thesis by blast
qed

theorem find_unique_fixed_alleles_filter_witness:
  "wf_fixed fixed_example \<and>
   find_unique_fixed_alleles fixed_example =
     Inr [((''1'', 100),
           [(''A'', [(''A'', Fin 1), (''T'', Fin 0)]), (''B'', [(''A'', Fin 0), (''T'', Fin 1)])]),
          ((''2'', 7), [(''B'', [(''C'', Fin 1)])])]"
proof -
  have wf: "wf_fixed fixed_example"
    by (simp add: wf_fixed_def is_dict_def fixed_example_def)
  have "filter (\<lambda>(l, es). is_unique_locus es) fixed_example =
     [((''1'', 100),
       [(''A'', [(''A'', Fin 1), (''T'', Fin 0)]), (''B'', [(''A'', Fin 0), (''T'', Fin 1)])]),
      ((''2'', 7), [(''B'', [(''C'', Fin 1)])])]"
    by (simp add: is_unique_locus_def fixed_example_def fl_gt_def)
  with find_unique_fixed_alleles_filter [OF wf] wf show ?thesis by simp
qed

section \<open>Properties of the private-site classifier\<close>

lemma private_sites_loop_spec:
  "distinct (map fst t) \<Longrightarrow> fst ` set ps \<inter> fst ` set t = {} \<Longrightarrow>
   fst ` set ums \<inter> fst ` set t = {} \<Longrightarrow>
   private_sites_loop t (ps, ums) = (ps @ private_sites_spec t, ums @ missing_sites_spec t)"
proof (induction t arbitrary: ps ums)
  case Nil
  then show ?case by (simp add: private_sites_spec_def missing_sites_spec_def)
next
  case (Cons x t)
  obtain l cd where x: "x = (l, cd)" by (cases x) auto
  let ?g = "genotyped_clades cd"
  let ?ps = "if is_private_site cd then ps @ [(l, hd ?g)] else ps"
  let ?ums = "if is_uniquely_missing cd then ums @ [(l, ?g)] else ums"
  have f1: "l \<notin> fst ` set ps" and f2: "l \<notin> fst ` set ums" using Cons.prems x by auto
  have d: "distinct (map fst t)" using Cons.prems(1) by simp
  have 1: "fst ` set ?ps \<inter> fst ` set t = {}" using Cons.prems x by auto
  have 2: "fst ` set ?ums \<inter> fst ` set t = {}" using Cons.prems x by auto
  have step: "private_sites_loop (x # t) (ps, ums) = private_sites_loop t (?ps, ?ums)"
    by (simp add: x Let_def is_private_site_def is_uniquely_missing_def
        dict_set_fresh [OF f1] dict_set_fresh [OF f2])
  show ?case
    unfolding step Cons.IH [OF d 1 2]
    by (simp add: x private_sites_spec_def missing_sites_spec_def)
qed

lemma genotyped_clades_keys:
  "distinct (map fst cd) \<Longrightarrow> distinct (map fst (genotyped_clades cd))"
  unfolding genotyped_clades_def
  by (simp add: comp_def case_prod_unfold distinct_map_filter)

lemma set_genotyped_clades:
  "set (genotyped_clades cd) = {(c, p). \<exists>afs. (c, (p, afs)) \<in> set cd \<and> fl_gt p (Fin 0)}"
  unfolding genotyped_clades_def by force

lemma length_genotyped_clades:
  assumes "distinct (map fst cd)"
  shows "length (genotyped_clades cd) = card (genotyped_set cd)"
proof -
  have "length (genotyped_clades cd) = card (set (map fst (genotyped_clades cd)))"
    using distinct_card [OF genotyped_clades_keys [OF assms]] by simp
  also have "set (map fst (genotyped_clades cd)) = genotyped_set cd"
    unfolding genotyped_set_def by (force simp: set_genotyped_clades)
  finally show ?thesis .
qed

lemma length_missing_clades: "length (missing_clades cd) = card (missing_set cd)"
proof -
  have "set (missing_clades cd) = missing_set cd"
    unfolding missing_clades_def missing_set_def by force
  moreover have "distinct (missing_clades cd)" by (simp add: missing_clades_def)
  ultimately show ?thesis by (metis distinct_card)
qed

lemma in_private_sites_spec:
  "(l, v) \<in> set (private_sites_spec t) \<longleftrightarrow>
     (\<exists>cd. (l, cd) \<in> set t \<and> is_private_site cd \<and> v = hd (genotyped_clades cd))"
  unfolding private_sites_spec_def by auto

lemma in_missing_sites_spec:
  "(l, g) \<in> set (missing_sites_spec t) \<longleftrightarrow>
     (\<exists>cd. (l, cd) \<in> set t \<and> is_uniquely_missing cd \<and> g = genotyped_clades cd)"
  unfolding missing_sites_spec_def by auto

lemma find_private_sites_spec:
  "wf_table t \<Longrightarrow> find_private_sites t = (private_sites_spec t, missing_sites_spec t)"
  using private_sites_loop_spec [of t "[]" "[]"] wf_table_loci [of t]
  by (simp add: find_private_sites_def)

text \<open>
  C6.  For every aggregated table and every locus of it, the locus is recorded as a
  private site exactly when one clade has a genotyped fraction above 0 and at least one
  clade has a genotyped fraction equal to 0, and the record is that clade with its
  genotyped fraction; it is recorded as uniquely missing exactly when more than one clade
  is genotyped and one clade is missing, and the record maps the genotyped clades to their
  genotyped fractions.  No locus is in both outputs, and both hold loci of the table only.
\<close>

theorem find_private_sites_classes:
  assumes wf: "wf_table t" and l: "(l, cd) \<in> set t"
  shows "(l \<in> fst ` set (fst (find_private_sites t)) \<longleftrightarrow>
            card (genotyped_set cd) = 1 \<and> card (missing_set cd) > 0) \<and>
         (\<forall>c p. (l, (c, p)) \<in> set (fst (find_private_sites t)) \<longrightarrow>
            (\<exists>afs. (c, (p, afs)) \<in> set cd \<and> fl_gt p (Fin 0))) \<and>
         (l \<in> fst ` set (snd (find_private_sites t)) \<longleftrightarrow>
            card (genotyped_set cd) > 1 \<and> card (missing_set cd) = 1) \<and>
         (\<forall>g. (l, g) \<in> set (snd (find_private_sites t)) \<longrightarrow>
            is_dict g \<and> set g = {(c, p). \<exists>afs. (c, (p, afs)) \<in> set cd \<and> fl_gt p (Fin 0)}) \<and>
         fst ` set (fst (find_private_sites t)) \<inter> fst ` set (snd (find_private_sites t)) = {} \<and>
         fst ` set (fst (find_private_sites t)) \<union> fst ` set (snd (find_private_sites t))
           \<subseteq> fst ` set t \<and>
         is_dict (fst (find_private_sites t)) \<and> is_dict (snd (find_private_sites t))"
proof -
  note sp = find_private_sites_spec [OF wf]
  have dt: "distinct (map fst t)" by (rule wf_table_loci [OF wf])
  have dcd: "distinct (map fst cd)" by (rule wf_table_clades [OF wf l])
  have uniq: "cd' = cd" if "(l, cd') \<in> set t" for cd'
    using dict_unique [OF dt that l] .
  have ps: "is_private_site cd \<longleftrightarrow> card (genotyped_set cd) = 1 \<and> card (missing_set cd) > 0"
    by (simp add: is_private_site_def length_genotyped_clades [OF dcd] length_missing_clades)
  have um: "is_uniquely_missing cd \<longleftrightarrow> card (genotyped_set cd) > 1 \<and> card (missing_set cd) = 1"
    by (simp add: is_uniquely_missing_def length_genotyped_clades [OF dcd] length_missing_clades)
  have 1: "l \<in> fst ` set (private_sites_spec t) \<longleftrightarrow> is_private_site cd"
  proof
    assume "l \<in> fst ` set (private_sites_spec t)"
    then obtain v where "(l, v) \<in> set (private_sites_spec t)" by auto
    then obtain cd' where "(l, cd') \<in> set t" "is_private_site cd'"
      unfolding in_private_sites_spec by blast
    with uniq show "is_private_site cd" by blast
  next
    assume "is_private_site cd"
    with l have "(l, hd (genotyped_clades cd)) \<in> set (private_sites_spec t)"
      unfolding in_private_sites_spec by blast
    then show "l \<in> fst ` set (private_sites_spec t)" by (rule image_eqI [rotated]) simp
  qed
  have 2: "\<exists>afs. (c, (p, afs)) \<in> set cd \<and> fl_gt p (Fin 0)"
    if "(l, (c, p)) \<in> set (private_sites_spec t)" for c p
  proof -
    from that obtain cd' where "(l, cd') \<in> set t" "is_private_site cd'"
        "(c, p) = hd (genotyped_clades cd')"
      unfolding in_private_sites_spec by blast
    with uniq have a: "is_private_site cd" "(c, p) = hd (genotyped_clades cd)"
      by blast+
    then have "genotyped_clades cd \<noteq> []" by (auto simp: is_private_site_def)
    with a(2) have "(c, p) \<in> set (genotyped_clades cd)" by simp
    then show ?thesis by (simp add: set_genotyped_clades)
  qed
  have 3: "l \<in> fst ` set (missing_sites_spec t) \<longleftrightarrow> is_uniquely_missing cd"
  proof
    assume "l \<in> fst ` set (missing_sites_spec t)"
    then obtain v where "(l, v) \<in> set (missing_sites_spec t)" by auto
    then obtain cd' where "(l, cd') \<in> set t" "is_uniquely_missing cd'"
      unfolding in_missing_sites_spec by blast
    with uniq show "is_uniquely_missing cd" by blast
  next
    assume "is_uniquely_missing cd"
    with l have "(l, genotyped_clades cd) \<in> set (missing_sites_spec t)"
      unfolding in_missing_sites_spec by blast
    then show "l \<in> fst ` set (missing_sites_spec t)" by (rule image_eqI [rotated]) simp
  qed
  have 4: "is_dict g \<and> set g = {(c, p). \<exists>afs. (c, (p, afs)) \<in> set cd \<and> fl_gt p (Fin 0)}"
    if "(l, g) \<in> set (missing_sites_spec t)" for g
  proof -
    from that obtain cd' where "(l, cd') \<in> set t" "g = genotyped_clades cd'"
      unfolding in_missing_sites_spec by blast
    with uniq have "g = genotyped_clades cd" by blast
    then show ?thesis
      using genotyped_clades_keys [OF dcd] by (simp add: set_genotyped_clades is_dict_def)
  qed
  have 5: "fst ` set (private_sites_spec t) \<inter> fst ` set (missing_sites_spec t) = {}"
  proof -
    have False if a: "(k, v) \<in> set (private_sites_spec t)" and b: "(k, g) \<in> set (missing_sites_spec t)"
      for k v g
    proof -
      from a obtain c1 where c1: "(k, c1) \<in> set t" "is_private_site c1"
        unfolding in_private_sites_spec by blast
      from b obtain c2 where c2: "(k, c2) \<in> set t" "is_uniquely_missing c2"
        unfolding in_missing_sites_spec by blast
      from dict_unique [OF dt c1(1) c2(1)] c1(2) c2(2) show False
        by (simp add: is_private_site_def is_uniquely_missing_def)
    qed
    then show ?thesis by auto
  qed
  have 6: "fst ` set (private_sites_spec t) \<union> fst ` set (missing_sites_spec t) \<subseteq> fst ` set t"
    unfolding private_sites_spec_def missing_sites_spec_def by (auto intro: rev_image_eqI)
  have 7: "is_dict (private_sites_spec t)" "is_dict (missing_sites_spec t)"
    using dt unfolding is_dict_def private_sites_spec_def missing_sites_spec_def
    by (simp_all add: comp_def case_prod_unfold distinct_map_filter)
  show ?thesis
    unfolding sp fst_conv snd_conv
    by (intro conjI allI impI) (use 1 2 3 4 5 6 7 ps um in \<open>simp_all only:\<close>)
qed

theorem find_private_sites_classes_witness:
  "wf_table table_sites \<and>
   find_private_sites table_sites =
     ([((''1'', 20), (''A'', Fin 1))], [((''1'', 10), [(''A'', Fin 1), (''C'', Fin (1 / 2))])]) \<and>
   1 < card (genotyped_set (snd (hd table_sites))) \<and>
   card (missing_set (snd (hd table_sites))) = 1"
proof -
  have wf: "wf_table table_sites"
    by (simp add: wf_table_def is_dict_def table_sites_def)
  have l: "((''1'', 10), snd (hd table_sites)) \<in> set table_sites"
    by (simp add: table_sites_def)
  have r: "find_private_sites table_sites =
     ([((''1'', 20), (''A'', Fin 1))], [((''1'', 10), [(''A'', Fin 1), (''C'', Fin (1 / 2))])])"
    by (simp add: find_private_sites_def table_sites_def genotyped_clades_def
        missing_clades_def fl_gt_def fl_eq_def Let_def)
  then have "(''1'', 10) \<in> fst ` set (snd (find_private_sites table_sites))" by simp
  with find_private_sites_classes [OF wf l] wf r show ?thesis by simp
qed

section \<open>Properties of the divergence scorer\<close>

























section \<open>Properties of the top-divergent selection\<close>

lemma mset_insort_lt: "mset (insort_lt key x ys) = add_mset x (mset ys)"
  by (induction ys) simp_all

lemma set_insort_lt: "set (insort_lt key x ys) = insert x (set ys)"
  by (induction ys) auto

lemma mset_py_sorted: "mset (py_sorted key xs) = mset xs"
  unfolding py_sorted_def by (induction xs) (simp_all add: mset_insort_lt)

lemma set_py_sorted: "set (py_sorted key xs) = set xs"
  using mset_py_sorted [of key xs] by (metis set_mset_mset)

lemma fl_not_lt_trans: "\<not> fl_lt z y \<Longrightarrow> \<not> fl_lt y x \<Longrightarrow> \<not> is_nan y \<Longrightarrow> \<not> fl_lt z x"
  by (cases x; cases y; cases z) auto

lemma fl_lt_asym: "fl_lt a b \<Longrightarrow> \<not> fl_lt b a"
  by (cases a; cases b) auto

lemma fl_lt_irrefl: "\<not> fl_lt a a"
  by (cases a) auto

lemma fl_not_lt_ge: "\<not> is_nan a \<Longrightarrow> \<not> is_nan b \<Longrightarrow> \<not> fl_lt a b \<longleftrightarrow> fl_ge a b"
  unfolding fl_ge_def fl_eq_def by (cases a; cases b) auto

lemma sorted_insort_lt:
  "\<forall>y \<in> set ys. \<not> is_nan (key y) \<Longrightarrow>
   sorted_wrt (\<lambda>a b. \<not> fl_lt (key b) (key a)) ys \<Longrightarrow>
   sorted_wrt (\<lambda>a b. \<not> fl_lt (key b) (key a)) (insort_lt key x ys)"
proof (induction ys)
  case Nil
  then show ?case by simp
next
  case (Cons y ys)
  show ?case
  proof (cases "fl_lt (key y) (key x)")
    case True
    have "\<not> fl_lt (key z) (key y)" if "z \<in> set (insort_lt key x ys)" for z
      using that Cons.prems(2) fl_lt_asym [OF True] by (auto simp: set_insort_lt)
    moreover have "sorted_wrt (\<lambda>a b. \<not> fl_lt (key b) (key a)) (insort_lt key x ys)"
      using Cons by simp
    ultimately show ?thesis using True by simp
  next
    case False
    have ny: "\<not> is_nan (key y)" using Cons.prems(1) by simp
    have "\<not> fl_lt (key z) (key x)" if "z \<in> set ys" for z
    proof -
      from that Cons.prems(2) have "\<not> fl_lt (key z) (key y)" by simp
      from fl_not_lt_trans [OF this False ny] show ?thesis .
    qed
    with False Cons.prems(2) show ?thesis by simp
  qed
qed

lemma sorted_py_sorted:
  "\<forall>x \<in> set xs. \<not> is_nan (key x) \<Longrightarrow>
   sorted_wrt (\<lambda>a b. \<not> fl_lt (key b) (key a)) (py_sorted key xs)"
proof (induction xs)
  case Nil
  then show ?case by (simp add: py_sorted_def)
next
  case (Cons x xs)
  have "\<forall>y \<in> set (py_sorted key xs). \<not> is_nan (key y)"
    using Cons.prems by (simp add: set_py_sorted)
  from sorted_insort_lt [OF this] Cons show ?case by (simp add: py_sorted_def)
qed

lemma filter_insort_lt:
  "filter (\<lambda>z. key z = k) (insort_lt key x ys) =
     (if key x = k then x # filter (\<lambda>z. key z = k) ys else filter (\<lambda>z. key z = k) ys)"
proof (induction ys)
  case Nil
  then show ?case by simp
next
  case (Cons y ys)
  show ?case
  proof (cases "fl_lt (key y) (key x)")
    case True
    then have "key y \<noteq> key x" using fl_lt_irrefl by metis
    with True Cons show ?thesis by auto
  next
    case False
    then show ?thesis by simp
  qed
qed

lemma filter_py_sorted:
  "filter (\<lambda>z. key z = k) (py_sorted key xs) = filter (\<lambda>z. key z = k) xs"
  unfolding py_sorted_def by (induction xs) (simp_all add: filter_insort_lt)

lemma mset_py_sorted_reverse: "mset (py_sorted_reverse key xs) = mset xs"
  by (simp add: py_sorted_reverse_def mset_py_sorted)

lemma filter_py_sorted_reverse:
  "filter (\<lambda>z. key z = k) (py_sorted_reverse key xs) = filter (\<lambda>z. key z = k) xs"
  by (simp add: py_sorted_reverse_def rev_filter [symmetric] filter_py_sorted)

lemma sorted_py_sorted_reverse:
  assumes "\<forall>x \<in> set xs. \<not> is_nan (key x)"
  shows "sorted_wrt (\<lambda>a b. fl_ge (key a) (key b)) (py_sorted_reverse key xs)"
proof -
  have "sorted_wrt (\<lambda>a b. \<not> fl_lt (key b) (key a)) (py_sorted key (rev xs))"
    using sorted_py_sorted [of "rev xs" key] assms by simp
  then have s: "sorted_wrt (\<lambda>a b. \<not> fl_lt (key a) (key b)) (py_sorted_reverse key xs)"
    by (simp add: py_sorted_reverse_def sorted_wrt_rev)
  have nn: "\<forall>x \<in> set (py_sorted_reverse key xs). \<not> is_nan (key x)"
    using assms by (simp add: py_sorted_reverse_def set_py_sorted)
  show ?thesis
  proof (rule sorted_wrt_mono_rel [OF _ s])
    fix x y
    assume "x \<in> set (py_sorted_reverse key xs)" "y \<in> set (py_sorted_reverse key xs)"
      "\<not> fl_lt (key x) (key y)"
    with nn show "fl_ge (key x) (key y)" using fl_not_lt_ge by blast
  qed
qed

lemma score_key_not_nan:
  "x \<in> set (filtered_scores ds) \<Longrightarrow> \<not> is_nan (score_key x)"
  unfolding filtered_scores_def score_key_def
  by (cases "fst (snd x)") (auto simp: case_prod_unfold)

text \<open>
  C5 (as amended).  For every divergence map and every \<open>n \<ge> 0\<close>, the rows selected are the
  first \<open>n\<close> of the entries with a non-NaN score, sorted descending by the score rounded
  to six decimals; there are \<open>min n m\<close> of them, for \<open>m\<close> entries with a non-NaN score.
  The sorted list is a permutation of those entries, and the entries of one rounded score
  keep the order they have in the map.
\<close>

theorem most_divergent_loci_top:
  assumes "0 \<le> n"
  shows "most_divergent_loci ds n =
           take (nat n) (py_sorted_reverse score_key (filter (\<lambda>(k, v). \<not> is_nan (fst v)) ds)) \<and>
         length (most_divergent_loci ds n) =
           min (nat n) (length (filter (\<lambda>(k, v). \<not> is_nan (fst v)) ds)) \<and>
         mset (py_sorted_reverse score_key (filter (\<lambda>(k, v). \<not> is_nan (fst v)) ds)) =
           mset (filter (\<lambda>(k, v). \<not> is_nan (fst v)) ds) \<and>
         sorted_wrt (\<lambda>a b. fl_ge (score_key a) (score_key b))
           (py_sorted_reverse score_key (filter (\<lambda>(k, v). \<not> is_nan (fst v)) ds)) \<and>
         (\<forall>r. filter (\<lambda>x. score_key x = r)
                (py_sorted_reverse score_key (filter (\<lambda>(k, v). \<not> is_nan (fst v)) ds)) =
              filter (\<lambda>x. score_key x = r) (filter (\<lambda>(k, v). \<not> is_nan (fst v)) ds))"
proof -
  let ?f = "filter (\<lambda>(k, v). \<not> is_nan (fst v)) ds"
  let ?s = "py_sorted_reverse score_key ?f"
  have f: "filtered_scores ds = ?f" by (simp add: filtered_scores_def)
  have 1: "most_divergent_loci ds n = take (nat n) ?s"
    using assms by (simp add: most_divergent_loci_def py_slice_to_def f)
  have len: "length ?s = length ?f"
    using mset_py_sorted_reverse [of score_key ?f] by (metis size_mset)
  have 2: "length (most_divergent_loci ds n) = min (nat n) (length ?f)"
    unfolding 1 by (simp add: len min.commute)
  have 3: "mset ?s = mset ?f" by (rule mset_py_sorted_reverse)
  have "\<forall>x \<in> set ?f. \<not> is_nan (score_key x)"
    using score_key_not_nan [of _ ds] unfolding f by blast
  then have 4: "sorted_wrt (\<lambda>a b. fl_ge (score_key a) (score_key b)) ?s"
    by (rule sorted_py_sorted_reverse)
  have 5: "filter (\<lambda>x. score_key x = r) ?s = filter (\<lambda>x. score_key x = r) ?f" for r
    by (rule filter_py_sorted_reverse)
  from 1 2 3 4 5 show ?thesis by blast
qed

theorem most_divergent_loci_top_witness:
  "(0 :: int) \<le> 3 \<and>
   length (most_divergent_loci scores_example 3) = 3 \<and>
   most_divergent_loci scores_example 3 =
     [((''1'', 3), (Fin 2, Fin 1)), ((''1'', 5), (Fin 2, Fin (1 / 2))),
      ((''1'', 1), (Fin (1 / 2), Fin 1))]"
proof -
  have n: "(0 :: int) \<le> 3" by simp
  from most_divergent_loci_top [OF n, of scores_example]
  have "length (most_divergent_loci scores_example 3) =
      min (nat 3) (length (filter (\<lambda>(k, v). \<not> is_nan (fst v)) scores_example))"
    by blast
  then have len: "length (most_divergent_loci scores_example 3) = 3"
    by (simp add: scores_example_def)
  have "most_divergent_loci scores_example 3 =
     [((''1'', 3), (Fin 2, Fin 1)), ((''1'', 5), (Fin 2, Fin (1 / 2))),
      ((''1'', 1), (Fin (1 / 2), Fin 1))]"
    by (simp add: most_divergent_loci_def scores_example_def filtered_scores_def py_slice_to_def
        py_sorted_reverse_def py_sorted_def score_key_def round_half_even_def)
  with len show ?thesis by simp
qed

text \<open>
  A negative \<open>n\<close> makes the slice drop entries from the end: with \<open>n = -1\<close> and four
  entries with a non-NaN score, three rows are selected.
\<close>

theorem most_divergent_loci_negative:
  "most_divergent_loci scores_example (- 1) =
     [((''1'', 3), (Fin 2, Fin 1)), ((''1'', 5), (Fin 2, Fin (1 / 2))),
      ((''1'', 1), (Fin (1 / 2), Fin 1))] \<and>
   int (length (most_divergent_loci scores_example (- 1))) \<noteq>
     min (- 1) (int (length (filtered_scores scores_example)))"
  by (simp add: most_divergent_loci_def scores_example_def filtered_scores_def py_slice_to_def
      py_sorted_reverse_def py_sorted_def score_key_def round_half_even_def)

section \<open>Failures of the aggregation\<close>

lemma bind_err_Inl:
  "bind_err r f = Inl e \<Longrightarrow> r = Inl e \<or> (\<exists>x. r = Inr x \<and> f x = Inl e)"
  by (cases r) (simp_all add: bind_err_def)

lemma bind_err_Inr [simp]: "bind_err (Inr x) f = f x"
  by (simp add: bind_err_def)

lemma bind_err_Inl_left [simp]: "bind_err (Inl e) f = Inl e"
  by (simp add: bind_err_def)

lemma py_index_error: "py_index x xs = Inl e \<Longrightarrow> e = ValueError"
  by (induction xs) (auto split: if_splits dest!: bind_err_Inl)

lemma py_getitem_error: "py_getitem xs i = Inl e \<Longrightarrow> e = IndexError"
  by (simp add: py_getitem_def split: if_splits)

lemma or_raise_error: "or_raise e' r = Inl e \<Longrightarrow> e = e'"
  by (simp add: or_raise_def split: option.splits)

lemma column_error: "column header line name = Inl e \<Longrightarrow> e = ValueError \<or> e = IndexError"
  unfolding column_def by (auto dest!: bind_err_Inl dest: py_index_error py_getitem_error)

lemma int_column_error:
  "bind_err (column header line name) (\<lambda>s. or_raise ValueError (int_of s)) = Inl e \<Longrightarrow>
   e = ValueError \<or> e = IndexError"
  by (auto dest!: bind_err_Inl dest: column_error or_raise_error)


lemma fl_div_int_error: "fl_div_int x n = Inl e \<Longrightarrow> e = ZeroDivisionError"
  by (simp split: if_splits)















section \<open>The files a run writes\<close>









section \<open>No empty entry in a classifier's output\<close>

lemma setdefault_append_nonempty:
  "\<forall>(k, vs) \<in> set d. vs \<noteq> [] \<Longrightarrow> \<forall>(k, vs) \<in> set (setdefault_append k' v d). vs \<noteq> []"
  by (induction d) (auto split: if_splits)

lemma fixed_clades_nonempty:
  "fixed_clades key miss err cd acc = Inr out \<Longrightarrow> \<forall>(k, vs) \<in> set acc. vs \<noteq> [] \<Longrightarrow>
   \<forall>(k, vs) \<in> set out. vs \<noteq> []"
proof (induction cd arbitrary: acc)
  case Nil
  then show ?case by simp
next
  case (Cons x cd)
  obtain c p afs where x: "x = (c, (p, afs))" by (cases x) auto
  from Cons.prems(1) show ?case
    using Cons.IH [of acc] Cons.IH [of "setdefault_append key (c, afs) acc"]
      Cons.prems(2) setdefault_append_nonempty [OF Cons.prems(2), of key "(c, afs)"]
    by (simp add: x split: if_splits sum.splits)
qed

lemma fixed_loci_nonempty:
  "fixed_loci miss err t acc = Inr out \<Longrightarrow> \<forall>(k, vs) \<in> set acc. vs \<noteq> [] \<Longrightarrow>
   \<forall>(k, vs) \<in> set out. vs \<noteq> []"
proof (induction t arbitrary: acc)
  case Nil
  then show ?case by simp
next
  case (Cons x t)
  obtain l cd where x: "x = (l, cd)" by (cases x) auto
  from Cons.prems(1) obtain acc' where
    a: "fixed_clades l miss err cd acc = Inr acc'" and b: "fixed_loci miss err t acc' = Inr out"
    by (auto simp: x split: sum.splits)
  from Cons.IH [OF b fixed_clades_nonempty [OF a Cons.prems(2)]] show ?case .
qed

lemma dict_set_nonempty:
  "P v \<Longrightarrow> \<forall>(k, w) \<in> set d. P w \<Longrightarrow> \<forall>(k, w) \<in> set (dict_set k' v d). P w"
  by (induction d) (auto split: if_splits)

lemma private_clades_nonempty:
  "\<forall>(c, ps) \<in> set acc. ps \<noteq> [] \<Longrightarrow>
   \<forall>(c, ps) \<in> set (private_clades err cd0 cd acc). ps \<noteq> []"
proof (induction cd arbitrary: acc)
  case Nil
  then show ?case by simp
next
  case (Cons x cd)
  obtain c rec where x: "x = (c, rec)" by (cases x) auto
  show ?case
  proof (cases "private_alleles_set err cd0 c rec = []")
    case True
    with Cons.IH [OF Cons.prems] show ?thesis by (simp add: x)
  next
    case False
    have "\<forall>(k, w) \<in> set (dict_set c (private_alleles_set err cd0 c rec) acc). w \<noteq> []"
      using dict_set_nonempty [of "\<lambda>w. w \<noteq> []", OF False Cons.prems] .
    from Cons.IH [OF this] False show ?thesis by (simp add: x)
  qed
qed

lemma private_loci_nonempty:
  "\<forall>(l, m) \<in> set acc. m \<noteq> [] \<and> (\<forall>(c, ps) \<in> set m. ps \<noteq> []) \<Longrightarrow>
   \<forall>(l, m) \<in> set (private_loci err t acc). m \<noteq> [] \<and> (\<forall>(c, ps) \<in> set m. ps \<noteq> [])"
proof (induction t arbitrary: acc)
  case Nil
  then show ?case by simp
next
  case (Cons x t)
  obtain l cd where x: "x = (l, cd)" by (cases x) auto
  let ?m = "private_clades err cd cd []"
  show ?case
  proof (cases "\<not> locus_skipped cd \<and> ?m \<noteq> []")
    case True
    have "\<forall>(c, ps) \<in> set ?m. ps \<noteq> []"
      using private_clades_nonempty [of "[]" err cd cd] by simp
    with True have "?m \<noteq> [] \<and> (\<forall>(c, ps) \<in> set ?m. ps \<noteq> [])" by simp
    from dict_set_nonempty [of "\<lambda>m. m \<noteq> [] \<and> (\<forall>(c, ps) \<in> set m. ps \<noteq> [])", OF this Cons.prems]
    have "\<forall>(k, m) \<in> set (dict_set l ?m acc). m \<noteq> [] \<and> (\<forall>(c, ps) \<in> set m. ps \<noteq> [])" .
    from Cons.IH [OF this] True show ?thesis by (simp add: x)
  next
    case False
    with Cons.IH [OF Cons.prems] show ?thesis by (auto simp: x Let_def)
  qed
qed

text \<open>
  C10.  Every locus key of the fixed-allele classifier's output maps to a non-empty list
  of clade entries, and every locus key of the private-allele classifier's output maps to
  a non-empty clade map whose clades each map to a non-empty allele map.
\<close>

theorem classifier_outputs_nonempty:
  "(\<forall>out. identify_fixed_alleles t miss err = Inr out \<longrightarrow> (\<forall>(l, es) \<in> set out. es \<noteq> [])) \<and>
   (\<forall>(l, m) \<in> set (identify_private_alleles t err').
      m \<noteq> [] \<and> (\<forall>(c, ps) \<in> set m. ps \<noteq> []))"
proof -
  have a: "\<forall>(l, es) \<in> set out. es \<noteq> []" if "identify_fixed_alleles t miss err = Inr out" for out
    using fixed_loci_nonempty [of miss err t "[]" out] that
    by (simp add: identify_fixed_alleles_def)
  have b: "\<forall>(l, m) \<in> set (identify_private_alleles t err').
      m \<noteq> [] \<and> (\<forall>(c, ps) \<in> set m. ps \<noteq> [])"
    using private_loci_nonempty [of "[]" err' t] by (simp add: identify_private_alleles_def)
  from a b show ?thesis by blast
qed

theorem classifier_outputs_nonempty_witness:
  "identify_fixed_alleles table_AB (Fin 1) (Fin 0) =
     Inr [((''1'', 100),
           [(''A'', [(''A'', Fin 1), (''T'', Fin 0)]), (''B'', [(''A'', Fin 0), (''T'', Fin 1)])])] \<and>
   list_all (\<lambda>(l, es). es \<noteq> [])
     [((''1'', 100),
           [(''A'', [(''A'', Fin 1), (''T'', Fin 0)]), (''B'', [(''A'', Fin 0), (''T'', Fin 1)])])] \<and>
   identify_private_alleles table_AB (Fin 0) \<noteq> [] \<and>
   list_all (\<lambda>(l, m). m \<noteq> [] \<and> list_all (\<lambda>(c, ps). ps \<noteq> []) m)
     (identify_private_alleles table_AB (Fin 0))"
proof -
  have f: "identify_fixed_alleles table_AB (Fin 1) (Fin 0) =
     Inr [((''1'', 100),
           [(''A'', [(''A'', Fin 1), (''T'', Fin 0)]), (''B'', [(''A'', Fin 0), (''T'', Fin 1)])])]"
    by (simp add: identify_fixed_alleles_def table_AB_def fl_ge_def fl_gt_def fl_eq_def fl_sub_def)
  have p: "identify_private_alleles table_AB (Fin 0) \<noteq> []"
    by (simp add: identify_private_alleles_def table_AB_def locus_skipped_def fl_eq_def
        private_alleles_set_def above_def other_clades_alleles_def fl_gt_def)
  from classifier_outputs_nonempty [of table_AB "Fin 1" "Fin 0" "Fin 0"] f p
  show ?thesis
    unfolding list_all_iff by (simp add: case_prod_unfold) 
qed

end
